theory Spec2Isabelle
  imports
    Complex_Main
    "HOL-Library.Char_ord"
    "HOL-Library.List_Lexorder"
    "HOL-Library.Multiset"
begin

section \<open>The data model\<close>

text \<open>
  The program (\<^verbatim>\<open>create-sankematicSource.py\<close>) reads a cost table into a data frame and
  turns it into three blocks of flow lines. A row of the frame has the four columns the
  program reads; the cost column holds text when the table is read and an integer after
  line 50 has cleaned it, so the row type is polymorphic in the cost.

  How the frame is modelled:
  \<^item> text is ASCII: a string is a list of bytes;
  \<^item> a cell of the cost column is the text that \<^verbatim>\<open>astype(str)\<close> makes of it (the
    text \<^verbatim>\<open>nan\<close> for a missing cell);
  \<^item> a cell of the three text columns is a string, or missing (\<open>None\<close>): the reader
    of the table leaves the not-a-number marker in an empty cell, a grouping leaves out
    the rows whose key is missing, and a comparison of a missing cell with a string is
    false;
  \<^item> a cleaned cost is a 64-bit integer, and the sums of a grouping wrap around at 64
    bits, as the integer column of the frame does;
  \<^item> the two library operations whose result order the program does not fix, sorting a
    series by value and listing the elements of a set, are parameters of the model.
\<close>

record 'c row =
  MeterCategory :: "string option"
  PricingModel :: "string option"
  Environment :: "string option"
  Monthy_Cost :: 'c

type_synonym series = "(string \<times> int) list"

type_synonym sorter = "series \<Rightarrow> series"

type_synonym lister = "string option list \<Rightarrow> string option list"

type_synonym edge = "string \<times> int \<times> string"

section \<open>Label resolution\<close>

definition get_label :: "string \<Rightarrow> (string \<rightharpoonup> string) \<Rightarrow> string" where
  "get_label name overwrite_map =
     (case overwrite_map name of Some label \<Rightarrow> label | None \<Rightarrow> name)"

section \<open>Frame operations used by the program\<close>

text \<open>\<^verbatim>\<open>Series.unique()\<close>: the distinct values in order of first appearance.\<close>

fun unique :: "'a list \<Rightarrow> 'a list" where
  "unique [] = []"
| "unique (x # xs) = x # unique (filter (\<lambda>y. y \<noteq> x) xs)"

text \<open>The value a sum has in a 64-bit integer column: it wraps around.\<close>

definition int64 :: "int \<Rightarrow> int" where
  "int64 x = (x + 2 ^ 63) mod 2 ^ 64 - 2 ^ 63"

text \<open>
  \<^verbatim>\<open>df.groupby(key)['Monthy Cost'].sum()\<close>: one entry per distinct key, keys ascending,
  each with the 64-bit sum of the costs of its rows. The rows whose key is missing are
  left out.
\<close>

definition groupby_sum :: "(int row \<Rightarrow> string option) \<Rightarrow> int row list \<Rightarrow> series" where
  "groupby_sum key df =
     map (\<lambda>k. (k, int64 (sum_list (map Monthy_Cost (filter (\<lambda>r. key r = Some k) df)))))
       (sort (remdups (List.map_filter key df)))"

text \<open>
  What the program relies on from \<^verbatim>\<open>sort_values(ascending=False)\<close>: the entries are
  rearranged, none lost or added, into descending order of value. The order in which the
  default sorting algorithm of the library leaves entries of equal value is not fixed by
  the program, and nothing is assumed about it.
\<close>

definition sorts_descending :: "sorter \<Rightarrow> bool" where
  "sorts_descending srt \<longleftrightarrow>
     (\<forall>xs. mset (srt xs) = mset xs \<and> sorted_wrt (\<lambda>a b. snd b \<le> snd a) (srt xs))"

text \<open>What \<^verbatim>\<open>list(set(a) | set(b))\<close> gives: the elements, in an order that may change
  from one run of the interpreter to the next.\<close>

definition lists_elements :: "lister \<Rightarrow> bool" where
  "lists_elements ord \<longleftrightarrow> (\<forall>xs. set (ord xs) = set xs)"

text \<open>A concrete sorter: insertion sort on the negated value.\<close>

definition sort_values_stable :: sorter where
  "sort_values_stable xs = sort_key (\<lambda>p. - snd p) xs"

section \<open>Step 2: the cost column (line 50)\<close>

text \<open>
  \<^verbatim>\<open>df['Monthy Cost'].astype(str).str.replace(',', '').astype(float).round(0).astype(int)\<close>

  The column is handled one stage at a time, each stage on the whole column: commas are
  removed, the text is converted to double-precision floating point the way the
  interpreter's \<^verbatim>\<open>float\<close> reads a string, the floats are rounded to whole floats with ties going
  to the even neighbour, and the floats are cast to 64-bit integers.

  A finite double is modelled by the rational number it denotes (the sign of zero is
  dropped: it has no effect on the integer).
\<close>

datatype float64 = Finite rat | Infinity bool | NaN

datatype error =
    ValueError            \<comment> \<open>the text is not a number: raised by the conversion to float\<close>
  | IntCastingNaNError    \<comment> \<open>an infinity or a not-a-number cannot become an integer\<close>

subsection \<open>Rounding a rational to the nearest double\<close>

definition round_half_even :: "rat \<Rightarrow> int" where
  "round_half_even q =
     (let f = \<lfloor>q\<rfloor>; d = q - of_int f
      in if d < 1 / 2 then f else if 1 / 2 < d then f + 1 else if even f then f else f + 1)"

definition pow2 :: "int \<Rightarrow> rat" where
  "pow2 k = (if 0 \<le> k then 2 ^ nat k else 1 / 2 ^ nat (- k))"

function bit_length :: "int \<Rightarrow> int" where
  "bit_length n = (if n \<le> 0 then 0 else 1 + bit_length (n div 2))"
  by pat_completeness auto
termination
  by (relation "measure nat") auto

declare bit_length.simps [simp del]

text \<open>For \<open>q > 0\<close>, the exponent \<open>e\<close> with \<open>2\<^sup>e \<le> q < 2\<^sup>e\<^sup>+\<^sup>1\<close>.\<close>

definition binary_exponent :: "rat \<Rightarrow> int" where
  "binary_exponent q =
     (let k = bit_length (fst (quotient_of q)) - bit_length (snd (quotient_of q))
      in if pow2 k \<le> q then k else k - 1)"

text \<open>
  The double nearest to a rational, ties to the even significand: 53 significant bits, the
  smallest spacing \<open>2\<^sup>-\<^sup>1\<^sup>0\<^sup>7\<^sup>4\<close>, and infinity from \<open>2\<^sup>1\<^sup>0\<^sup>2\<^sup>4\<close> on.
\<close>

definition to_float64 :: "rat \<Rightarrow> float64" where
  "to_float64 q =
     (if q = 0 then Finite 0
      else
        let a = \<bar>q\<bar>;
            p = max (binary_exponent a - 52) (- 1074);
            r = of_int (round_half_even (a / pow2 p)) * pow2 p
        in if pow2 1024 \<le> r then Infinity (q < 0) else Finite (if q < 0 then - r else r))"

subsection \<open>Reading a float from text\<close>

definition is_digit :: "char \<Rightarrow> bool" where
  "is_digit c \<longleftrightarrow> c \<in> set ''0123456789''"

definition is_space :: "char \<Rightarrow> bool" where
  "is_space c \<longleftrightarrow>
     c \<in> set [CHR 0x09, CHR 0x0A, CHR 0x0B, CHR 0x0C, CHR 0x0D,
              CHR 0x1C, CHR 0x1D, CHR 0x1E, CHR 0x1F, CHR '' '']"

definition strip :: "string \<Rightarrow> string" where
  "strip s = rev (dropWhile is_space (rev (dropWhile is_space s)))"

definition to_lower :: "char \<Rightarrow> char" where
  "to_lower c = (if CHR ''A'' \<le> c \<and> c \<le> CHR ''Z'' then char_of (of_char c + (32::nat)) else c)"

definition digits_value :: "string \<Rightarrow> int" where
  "digits_value ds = foldl (\<lambda>n c. 10 * n + (of_char c - 48)) 0 ds"

text \<open>An underscore may stand between two digits, and nowhere else. The first argument is
  the character before.\<close>

fun remove_underscores :: "char \<Rightarrow> string \<Rightarrow> string option" where
  "remove_underscores prev [] = (if prev = CHR ''_'' then None else Some [])"
| "remove_underscores prev (c # cs) =
     (if c = CHR ''_''
      then (if is_digit prev then remove_underscores c cs else None)
      else if prev = CHR ''_'' \<and> \<not> is_digit c then None
      else map_option ((#) c) (remove_underscores c cs))"

definition scale10 :: "rat \<Rightarrow> int \<Rightarrow> rat" where
  "scale10 x k = (if 0 \<le> k then x * 10 ^ nat k else x / 10 ^ nat (- k))"

text \<open>The exponent part: nothing (exponent 0), or \<open>e\<close> or \<open>E\<close>, an optional sign, and at
  least one digit.\<close>

definition parse_exponent :: "string \<Rightarrow> int option" where
  "parse_exponent s =
     (case s of
        [] \<Rightarrow> Some 0
      | c # t \<Rightarrow>
          if c = CHR ''e'' \<or> c = CHR ''E'' then
            (let ds = (case t of [] \<Rightarrow> [] | d # u \<Rightarrow> if d = CHR ''-'' \<or> d = CHR ''+'' then u else t);
                 neg = (case t of [] \<Rightarrow> False | d # u \<Rightarrow> d = CHR ''-'')
             in if ds \<noteq> [] \<and> list_all is_digit ds
                then Some (if neg then - digits_value ds else digits_value ds)
                else None)
          else None)"

text \<open>An unsigned float: \<open>inf\<close>, \<open>infinity\<close> or \<open>nan\<close> in any case of letters, or digits
  with an optional point (at least one digit before or after it) and an optional exponent.\<close>

definition parse_magnitude :: "string \<Rightarrow> float64 option" where
  "parse_magnitude s =
     (if map to_lower s = ''inf'' \<or> map to_lower s = ''infinity'' then Some (Infinity False)
      else if map to_lower s = ''nan'' then Some NaN
      else
        let ip = takeWhile is_digit s;
            r1 = dropWhile is_digit s;
            fp = (case r1 of [] \<Rightarrow> [] | c # t \<Rightarrow> if c = CHR ''.'' then takeWhile is_digit t else []);
            r2 = (case r1 of [] \<Rightarrow> [] | c # t \<Rightarrow> if c = CHR ''.'' then dropWhile is_digit t else r1)
        in if ip = [] \<and> fp = [] then None
           else
             (case parse_exponent r2 of
                None \<Rightarrow> None
              | Some ex \<Rightarrow>
                  Some (to_float64
                    (scale10 (of_int (digits_value (ip @ fp))) (ex - int (length fp))))))"

definition negate :: "float64 \<Rightarrow> float64" where
  "negate x = (case x of Finite q \<Rightarrow> Finite (- q) | Infinity b \<Rightarrow> Infinity (\<not> b) | NaN \<Rightarrow> NaN)"

definition py_float :: "string \<Rightarrow> float64 option" where
  "py_float s =
     (case remove_underscores (CHR 0x00) (strip s) of
        None \<Rightarrow> None
      | Some t \<Rightarrow>
          (case t of
             [] \<Rightarrow> None
           | c # u \<Rightarrow>
               if c = CHR ''-'' then map_option negate (parse_magnitude u)
               else if c = CHR ''+'' then parse_magnitude u
               else parse_magnitude t))"

subsection \<open>The stages of line 50\<close>

definition remove_commas :: "string \<Rightarrow> string" where
  "remove_commas s = filter (\<lambda>c. c \<noteq> CHR '','') s"

fun astype_float :: "string list \<Rightarrow> error + float64 list" where
  "astype_float [] = Inr []"
| "astype_float (s # ss) =
     (case py_float s of
        None \<Rightarrow> Inl ValueError
      | Some x \<Rightarrow> (case astype_float ss of Inl e \<Rightarrow> Inl e | Inr xs \<Rightarrow> Inr (x # xs)))"

definition round0 :: "float64 \<Rightarrow> float64" where
  "round0 x = (case x of Finite q \<Rightarrow> Finite (of_int (round_half_even q)) | _ \<Rightarrow> x)"

definition is_finite :: "float64 \<Rightarrow> bool" where
  "is_finite x = (case x of Finite q \<Rightarrow> True | _ \<Rightarrow> False)"

text \<open>
  The cast of a finite double to a 64-bit integer: the integer part, when it lies in the
  64-bit range. For a double beyond the range nothing is raised, and the conversion gives
  the smallest 64-bit integer.
\<close>

definition to_int :: "float64 \<Rightarrow> int" where
  "to_int x =
     (case x of
        Finite q \<Rightarrow> if - (2 ^ 63) \<le> q \<and> q < 2 ^ 63 then \<lfloor>q\<rfloor> else - (2 ^ 63)
      | _ \<Rightarrow> - (2 ^ 63))"

definition astype_int :: "float64 list \<Rightarrow> error + int list" where
  "astype_int xs =
     (if \<not> list_all is_finite xs then Inl IntCastingNaNError else Inr (map to_int xs))"

definition clean_column :: "string list \<Rightarrow> error + int list" where
  "clean_column col =
     (case astype_float (map remove_commas col) of
        Inl e \<Rightarrow> Inl e
      | Inr xs \<Rightarrow> astype_int (map round0 xs))"

definition clean_cost :: "string \<Rightarrow> error + int" where
  "clean_cost s = (case clean_column [s] of Inl e \<Rightarrow> Inl e | Inr ns \<Rightarrow> Inr (hd ns))"

definition clean_costs :: "string row list \<Rightarrow> error + int row list" where
  "clean_costs df =
     (case clean_column (map Monthy_Cost df) of
        Inl e \<Rightarrow> Inl e
      | Inr ns \<Rightarrow>
          Inr (map (\<lambda>(r, n). \<lparr>MeterCategory = MeterCategory r, PricingModel = PricingModel r,
                               Environment = Environment r, Monthy_Cost = n\<rparr>) (zip df ns)))"

section \<open>Step 2: the umbrella category (line 53)\<close>

definition merged_categories :: "string list" where
  "merged_categories = [''Azure Data Factory v2'', ''Azure Synapse Analytics'']"

definition replace_category :: "string \<Rightarrow> string" where
  "replace_category c = (if c \<in> set merged_categories then ''ETL Tools'' else c)"

text \<open>A missing cell stays missing.\<close>

definition combine_categories :: "'c row list \<Rightarrow> 'c row list" where
  "combine_categories df =
     map (\<lambda>r. r\<lparr>MeterCategory := map_option replace_category (MeterCategory r)\<rparr>) df"

section \<open>Step 3: the categories to keep (lines 58 to 83)\<close>

text \<open>The mandatory list can hold the missing category, when a reserved record has none.\<close>

definition reservation_cats :: "int row list \<Rightarrow> string option list" where
  "reservation_cats df =
     unique (map MeterCategory (filter (\<lambda>r. PricingModel r = Some ''Reservation'') df))"

definition candidates :: "sorter \<Rightarrow> int row list \<Rightarrow> series" where
  "candidates srt df =
     srt (filter (\<lambda>p. Some (fst p) \<notin> set (reservation_cats df))
            (groupby_sum MeterCategory df))"

text \<open>The fillers are computed in the last branch only, where \<open>slots_remaining\<close> is
  positive, so that \<^verbatim>\<open>head(slots_remaining)\<close> is the first \<open>slots_remaining\<close> entries.\<close>

definition fillers :: "sorter \<Rightarrow> int row list \<Rightarrow> int \<Rightarrow> string list" where
  "fillers srt df top_categories =
     (let slots_for_specific = top_categories - 1;
          slots_remaining = slots_for_specific - int (length (reservation_cats df))
      in map fst (take (nat slots_remaining) (candidates srt df)))"

definition categories_to_keep ::
  "sorter \<Rightarrow> lister \<Rightarrow> int row list \<Rightarrow> int \<Rightarrow> string option list" where
  "categories_to_keep srt ord df top_categories =
     (let grouped_by_cat = groupby_sum MeterCategory df;
          mandatory = reservation_cats df;
          total_unique_cats = int (length grouped_by_cat)
      in if total_unique_cats \<le> top_categories then map (\<lambda>p. Some (fst p)) grouped_by_cat
         else
           let slots_for_specific = top_categories - 1
           in if int (length mandatory) \<ge> slots_for_specific then mandatory
              else ord (remdups (mandatory @ map Some (fillers srt df top_categories))))"

section \<open>Step 4: the grouping into Others (lines 87 to 90)\<close>

text \<open>
  \<^verbatim>\<open>category if category in categories_to_keep else 'Others'\<close>. A missing category is
  in the list only when the list holds the missing category of a reserved record (the
  marker of a missing cell is one object, found in the list by identity); otherwise a
  record with no category is grouped as Others.
\<close>

definition apply_grouping :: "string option list \<Rightarrow> string option \<Rightarrow> string option" where
  "apply_grouping keep category = (if category \<in> set keep then category else Some ''Others'')"

definition MeterCategory_Grouped :: "string option list \<Rightarrow> int row \<Rightarrow> string option" where
  "MeterCategory_Grouped keep r = apply_grouping keep (MeterCategory r)"

section \<open>Steps 5 and 6: sort orders and the three flows (lines 94 to 129)\<close>

definition pricing_order :: "string list" where
  "pricing_order = [''SavingsPlan'', ''Reservation'', ''OnDemand'']"

definition category_sort_list :: "sorter \<Rightarrow> string option list \<Rightarrow> int row list \<Rightarrow> series" where
  "category_sort_list srt keep df = srt (groupby_sum (MeterCategory_Grouped keep) df)"

definition environment_sort_list :: "sorter \<Rightarrow> int row list \<Rightarrow> series" where
  "environment_sort_list srt df = srt (groupby_sum Environment df)"

definition flow1_model ::
  "string option list \<Rightarrow> series \<Rightarrow> int row list \<Rightarrow> (string \<rightharpoonup> string) \<Rightarrow> string \<Rightarrow> edge list" where
  "flow1_model keep cat_sorted df overwrite_map model =
     (let model_df = filter (\<lambda>r. PricingModel r = Some model) df;
          model_cat_costs = groupby_sum (MeterCategory_Grouped keep) model_df
      in concat (map (\<lambda>cat_name.
           (case map_of model_cat_costs cat_name of
              None \<Rightarrow> []
            | Some cost \<Rightarrow>
                if cost > 0 then [(model, cost, get_label cat_name overwrite_map)] else []))
           (map fst cat_sorted)))"

definition flow1 ::
  "string option list \<Rightarrow> series \<Rightarrow> int row list \<Rightarrow> (string \<rightharpoonup> string) \<Rightarrow> edge list" where
  "flow1 keep cat_sorted df overwrite_map =
     concat (map (flow1_model keep cat_sorted df overwrite_map) pricing_order)"

definition flow2 :: "series \<Rightarrow> (string \<rightharpoonup> string) \<Rightarrow> edge list" where
  "flow2 cat_sorted overwrite_map =
     map (\<lambda>(cat_name, cost). (get_label cat_name overwrite_map, cost, ''TotalMonthly'')) cat_sorted"

definition flow3 :: "series \<Rightarrow> (string \<rightharpoonup> string) \<Rightarrow> edge list" where
  "flow3 env_sorted overwrite_map =
     map (\<lambda>(env_name, cost). (''TotalMonthly'', cost, get_label env_name overwrite_map)) env_sorted"

subsection \<open>Formatting\<close>

fun show_nat :: "nat \<Rightarrow> string" where
  "show_nat n =
     (if n < 10 then [char_of (48 + n)]
      else show_nat (n div 10) @ [char_of (48 + n mod 10)])"

declare show_nat.simps [simp del]

definition show_int :: "int \<Rightarrow> string" where
  "show_int i = (if i < 0 then CHR ''-'' # show_nat (nat (- i)) else show_nat (nat i))"

definition render :: "edge \<Rightarrow> string" where
  "render e = (case e of (source, cost, destination) \<Rightarrow>
     source @ '' ['' @ show_int cost @ ''] '' @ destination)"

fun join_lines :: "string list \<Rightarrow> string" where
  "join_lines [] = []"
| "join_lines [l] = l"
| "join_lines (l # ls) = l @ [CHR 0x0A] @ join_lines ls"

subsection \<open>The function on a cleaned frame (lines 53 to 129)\<close>

record flows =
  block1 :: "edge list"
  block2 :: "edge list"
  block3 :: "edge list"

definition sankey_flows ::
  "sorter \<Rightarrow> lister \<Rightarrow> int row list \<Rightarrow> int \<Rightarrow> (string \<rightharpoonup> string) \<Rightarrow> flows" where
  "sankey_flows srt ord df0 top_categories overwrite_map =
     (let df = combine_categories df0;
          keep = categories_to_keep srt ord df top_categories;
          cat_sorted = category_sort_list srt keep df;
          env_sorted = environment_sort_list srt df
      in \<lparr>block1 = flow1 keep cat_sorted df overwrite_map,
          block2 = flow2 cat_sorted overwrite_map,
          block3 = flow3 env_sorted overwrite_map\<rparr>)"

definition sankey_lines :: "flows \<Rightarrow> string list" where
  "sankey_lines fl =
     map render (block1 fl) @ [''''] @ map render (block2 fl) @ [''''] @ map render (block3 fl)"

definition sankey_text ::
  "sorter \<Rightarrow> lister \<Rightarrow> int row list \<Rightarrow> int \<Rightarrow> (string \<rightharpoonup> string) \<Rightarrow> string" where
  "sankey_text srt ord df0 top_categories overwrite_map =
     join_lines (sankey_lines (sankey_flows srt ord df0 top_categories overwrite_map))"

subsection \<open>The whole function (lines 42 to 129)\<close>

definition generate_sankey_data ::
  "sorter \<Rightarrow> lister \<Rightarrow> string row list \<Rightarrow> int \<Rightarrow> (string \<rightharpoonup> string) \<Rightarrow> error + string" where
  "generate_sankey_data srt ord df top_categories overwrite_map =
     (case clean_costs df of
        Inl e \<Rightarrow> Inl e
      | Inr cleaned \<Rightarrow> Inr (sankey_text srt ord cleaned top_categories overwrite_map))"

section \<open>Notions the properties are stated with\<close>

definition edge_cost :: "edge \<Rightarrow> int" where
  "edge_cost e = fst (snd e)"


definition grand_total :: "int row list \<Rightarrow> int" where
  "grand_total df = sum_list (map Monthy_Cost df)"

text \<open>The categories of a table: those of the cells that are not missing.\<close>

definition categories :: "'c row list \<Rightarrow> string set" where
  "categories df = set (List.map_filter MeterCategory df)"

text \<open>No 64-bit sum over records of the table wraps around: the absolute values of the
  costs add up to less than \<open>2\<^sup>6\<^sup>3\<close>.\<close>

definition fits_int64 :: "int row list \<Rightarrow> bool" where
  "fits_int64 df \<longleftrightarrow> sum_list (map (\<lambda>r. \<bar>Monthy_Cost r\<bar>) df) < 2 ^ 63"

subsection \<open>Example tables\<close>

definition mk_row :: "string \<Rightarrow> string \<Rightarrow> string \<Rightarrow> 'c \<Rightarrow> 'c row" where
  "mk_row c p e m =
     \<lparr>MeterCategory = Some c, PricingModel = Some p, Environment = Some e, Monthy_Cost = m\<rparr>"

text \<open>The example of the specification: A (500, OnDemand), B (300, Reservation),
  C (100, OnDemand).\<close>

definition spec_example :: "int row list" where
  "spec_example =
     [mk_row ''A'' ''OnDemand'' ''dev'' 500,
      mk_row ''B'' ''Reservation'' ''prod'' 300,
      mk_row ''C'' ''OnDemand'' ''dev'' 100]"

text \<open>Three categories, each with a reserved record.\<close>

definition three_reserved :: "int row list" where
  "three_reserved =
     [mk_row ''A'' ''Reservation'' ''dev'' 5,
      mk_row ''B'' ''Reservation'' ''dev'' 4,
      mk_row ''C'' ''Reservation'' ''dev'' 3]"

text \<open>Four categories, one of them with a reserved record.\<close>

definition four_categories :: "int row list" where
  "four_categories =
     [mk_row ''A'' ''OnDemand'' ''dev'' 500,
      mk_row ''B'' ''Reservation'' ''prod'' 300,
      mk_row ''C'' ''OnDemand'' ''dev'' 100,
      mk_row ''D'' ''SavingsPlan'' ''test'' 50]"

text \<open>A table whose only category bears the name of the bucket; a table with no reserved
  record; a table with a reserved record of one of the two merged categories.\<close>

definition others_category :: "int row list" where
  "others_category = [mk_row ''Others'' ''OnDemand'' ''dev'' 5]"

definition no_reservation :: "int row list" where
  "no_reservation =
     [mk_row ''A'' ''OnDemand'' ''dev'' 500, mk_row ''C'' ''SavingsPlan'' ''prod'' 100]"


text \<open>A table whose only record rounds to a cost of zero; the table of four categories as
  it is read, costs as text.\<close>

definition zero_cost :: "int row list" where
  "zero_cost = [mk_row ''A'' ''OnDemand'' ''dev'' 0]"




definition missing_category :: "int row list" where
  "missing_category =
     [mk_row ''A'' ''OnDemand'' ''dev'' 5,
      \<lparr>MeterCategory = None, PricingModel = Some ''OnDemand'', Environment = Some ''dev'',
       Monthy_Cost = 3\<rparr>]"


definition raw_four_categories :: "string row list" where
  "raw_four_categories =
     [mk_row ''A'' ''OnDemand'' ''dev'' ''500'',
      mk_row ''B'' ''Reservation'' ''prod'' ''300'',
      mk_row ''C'' ''OnDemand'' ''dev'' ''100'',
      mk_row ''D'' ''SavingsPlan'' ''test'' ''50'']"

section \<open>Basic facts about the frame operations\<close>

lemma unique_set [simp]: "set (unique xs) = set xs"
  by (induction xs rule: unique.induct) auto

lemma unique_distinct [simp]: "distinct (unique xs)"
  by (induction xs rule: unique.induct) auto

lemma set_map_filter: "set (List.map_filter f xs) = {k. Some k \<in> f ` set xs}"
  by (induction xs) (auto simp: List.map_filter_simps split: option.splits)

lemma groupby_keys: "map fst (groupby_sum key df) = sort (remdups (List.map_filter key df))"
  by (simp add: groupby_sum_def comp_def)

lemma groupby_keys_set: "fst ` set (groupby_sum key df) = {k. Some k \<in> key ` set df}"
proof -
  have "fst ` set (groupby_sum key df) = set (map fst (groupby_sum key df))" by simp
  also have "\<dots> = {k. Some k \<in> key ` set df}"
    by (simp only: groupby_keys set_sort set_remdups set_map_filter)
  finally show ?thesis .
qed

lemma groupby_keys_distinct: "distinct (map fst (groupby_sum key df))"
  by (simp add: groupby_keys)

lemma groupby_length: "length (groupby_sum key df) = card {k. Some k \<in> key ` set df}"
proof -
  have "length (groupby_sum key df) = length (map fst (groupby_sum key df))" by simp
  also have "\<dots> = card (set (map fst (groupby_sum key df)))"
    by (rule distinct_card [symmetric]) (rule groupby_keys_distinct)
  also have "set (map fst (groupby_sum key df)) = {k. Some k \<in> key ` set df}"
    using groupby_keys_set [of key df] by simp
  finally show ?thesis .
qed



subsection \<open>Sums that do not wrap\<close>






subsection \<open>Sorters\<close>

lemma sorter_mset: "sorts_descending srt \<Longrightarrow> mset (srt xs) = mset xs"
  by (simp add: sorts_descending_def)

lemma sorter_set: "sorts_descending srt \<Longrightarrow> set (srt xs) = set xs"
  by (metis sorter_mset set_mset_mset)

lemma sorter_length: "sorts_descending srt \<Longrightarrow> length (srt xs) = length xs"
  by (metis sorter_mset size_mset)


lemma sorter_distinct:
  "sorts_descending srt \<Longrightarrow> distinct (map fst (srt xs)) = distinct (map fst xs)"
  by (metis sorter_mset mset_map mset_eq_imp_distinct_iff)

lemma sorter_single:
  assumes "sorts_descending srt"
  shows "srt [x] = [x]"
  using sorter_mset [OF assms, of "[x]"] by simp

lemma sorter_Nil:
  assumes "sorts_descending srt"
  shows "srt [] = []"
  using sorter_mset [OF assms, of "[]"] by simp

lemma stable_sorts: "sorts_descending sort_values_stable"
  unfolding sorts_descending_def sort_values_stable_def
proof (intro allI conjI)
  fix xs :: series
  show "mset (sort_key (\<lambda>p. - snd p) xs) = mset xs" by simp
  have "sorted (map (\<lambda>p. - snd p) (sort_key (\<lambda>p. - snd p) xs))" by simp
  then show "sorted_wrt (\<lambda>a b. snd b \<le> snd a) (sort_key (\<lambda>p. - snd p) xs)"
    by (simp add: sorted_map)
qed

lemma id_lists: "lists_elements id"
  by (simp add: lists_elements_def)

lemma rev_lists: "lists_elements rev"
  by (simp add: lists_elements_def)

subsection \<open>The sums of the three blocks\<close>


lemma grand_total_combine [simp]: "grand_total (combine_categories df) = grand_total df"
  by (simp add: grand_total_def combine_categories_def comp_def)

lemma fits_int64_combine [simp]: "fits_int64 (combine_categories df) = fits_int64 df"
  by (simp add: fits_int64_def combine_categories_def comp_def)



lemma grouped_kept:
  "MeterCategory r \<in> set keep \<Longrightarrow> MeterCategory_Grouped keep r = MeterCategory r"
  by (simp add: MeterCategory_Grouped_def apply_grouping_def)




lemma category_sort_keys:
  assumes "sorts_descending srt"
  shows "set (map fst (category_sort_list srt keep df))
           = {g. Some g \<in> MeterCategory_Grouped keep ` set df}"
    and "distinct (map fst (category_sort_list srt keep df))"
  using groupby_keys_set [of "MeterCategory_Grouped keep" df]
    groupby_keys_distinct [of "MeterCategory_Grouped keep" df]
  by (simp_all add: category_sort_list_def sorter_set [OF assms] sorter_distinct [OF assms])







lemma combine_present:
  "(\<forall>r\<in>set (combine_categories df). MeterCategory r \<noteq> None)
     = (\<forall>r\<in>set df. MeterCategory r \<noteq> None)"
  by (simp add: combine_categories_def)

section \<open>C1: conservation of cost across the three blocks\<close>





section \<open>Facts about the selection of categories\<close>

lemma categories_iff: "c \<in> categories df \<longleftrightarrow> Some c \<in> MeterCategory ` set df"
  by (simp add: categories_def set_map_filter)

lemma finite_categories [simp]: "finite (categories df)"
  by (simp add: categories_def)

lemma reservation_cats_set:
  "set (reservation_cats df)
     = MeterCategory ` {r \<in> set df. PricingModel r = Some ''Reservation''}"
  by (auto simp: reservation_cats_def)

lemma reservation_cats_present: "Some c \<in> set (reservation_cats df) \<Longrightarrow> c \<in> categories df"
  by (auto simp: reservation_cats_set categories_iff)

lemma reservation_cats_distinct: "distinct (reservation_cats df)"
  by (simp add: reservation_cats_def)

lemma groupby_cat_keys: "fst ` set (groupby_sum MeterCategory df) = categories df"
  by (auto simp: groupby_keys_set categories_iff)

lemma groupby_cat_length: "length (groupby_sum MeterCategory df) = card (categories df)"
  by (simp add: groupby_length categories_def set_map_filter)

lemma keep_all:
  assumes "int (card (categories df)) \<le> top_categories"
  shows "categories_to_keep srt ord df top_categories
       = map (\<lambda>p. Some (fst p)) (groupby_sum MeterCategory df)"
  using assms by (simp add: categories_to_keep_def Let_def groupby_cat_length)

lemma keep_all_set:
  assumes "int (card (categories df)) \<le> top_categories"
  shows "set (categories_to_keep srt ord df top_categories) = Some ` categories df"
proof -
  have "set (map (\<lambda>p. Some (fst p)) (groupby_sum MeterCategory df))
      = Some ` fst ` set (groupby_sum MeterCategory df)"
    by (simp add: image_image)
  then show ?thesis by (simp only: keep_all [OF assms] groupby_cat_keys)
qed

lemma keep_mandatory:
  assumes "top_categories < int (card (categories df))"
    and "top_categories - 1 \<le> int (length (reservation_cats df))"
  shows "categories_to_keep srt ord df top_categories = reservation_cats df"
  using assms by (simp add: categories_to_keep_def Let_def groupby_cat_length)

lemma keep_fill:
  assumes "top_categories < int (card (categories df))"
    and "int (length (reservation_cats df)) < top_categories - 1"
  shows "categories_to_keep srt ord df top_categories =
           ord (remdups (reservation_cats df @ map Some (fillers srt df top_categories)))"
  using assms by (simp add: categories_to_keep_def Let_def groupby_cat_length)

lemma keep_fill_set:
  assumes "lists_elements ord" "top_categories < int (card (categories df))"
    and "int (length (reservation_cats df)) < top_categories - 1"
  shows "set (categories_to_keep srt ord df top_categories) =
           set (reservation_cats df) \<union> Some ` set (fillers srt df top_categories)"
  using assms(1) by (simp add: keep_fill [OF assms(2,3)] lists_elements_def)

lemma present_mandatory_card:
  "card {c. Some c \<in> set (reservation_cats df)} \<le> length (reservation_cats df)"
proof -
  let ?M = "reservation_cats df"
  have "Some ` {c. Some c \<in> set ?M} \<subseteq> set ?M" by auto
  then have "card (Some ` {c. Some c \<in> set ?M}) \<le> card (set ?M)"
    by (intro card_mono) simp_all
  moreover have "card (Some ` {c. Some c \<in> set ?M}) = card {c. Some c \<in> set ?M}"
    by (rule card_image) simp
  moreover have "card (set ?M) \<le> length ?M" by (rule card_length)
  ultimately show ?thesis by linarith
qed

lemma candidates_props:
  assumes "sorts_descending srt"
  shows "distinct (map fst (candidates srt df))"
    and "set (map fst (candidates srt df))
           = categories df - {c. Some c \<in> set (reservation_cats df)}"
    and "card (categories df) - length (reservation_cats df) \<le> length (candidates srt df)"
proof -
  let ?G = "groupby_sum MeterCategory df"
  let ?M = "reservation_cats df"
  let ?S = "{c. Some c \<in> set ?M}"
  let ?C = "filter (\<lambda>p. Some (fst p) \<notin> set ?M) ?G"
  have mf: "map fst ?C = filter (\<lambda>k. Some k \<notin> set ?M) (map fst ?G)"
    by (simp add: filter_map comp_def)
  have dC: "distinct (map fst ?C)"
    unfolding mf using groupby_keys_distinct [of MeterCategory df] by simp
  have sC: "set (map fst ?C) = categories df - ?S"
    unfolding mf using groupby_cat_keys [of df] by auto
  show d: "distinct (map fst (candidates srt df))"
    unfolding candidates_def using dC by (simp add: sorter_distinct [OF assms(1)])
  show s: "set (map fst (candidates srt df)) = categories df - ?S"
    unfolding candidates_def using sC by (simp add: sorter_set [OF assms(1)])
  have finS: "finite ?S"
  proof (rule finite_imageD)
    have "Some ` ?S \<subseteq> set ?M" by auto
    then show "finite (Some ` ?S)" by (rule finite_subset) simp
    show "inj_on Some ?S" by simp
  qed
  have "card (categories df) - card ?S \<le> card (categories df - ?S)"
    by (rule diff_card_le_card_Diff [OF finS])
  also have "\<dots> = length (candidates srt df)"
    using d s by (metis distinct_card length_map)
  finally have "card (categories df) - card ?S \<le> length (candidates srt df)" .
  with present_mandatory_card [of df]
  show "card (categories df) - length ?M \<le> length (candidates srt df)" by linarith
qed

lemma fillers_props:
  assumes srt: "sorts_descending srt" and big: "top_categories < int (card (categories df))"
    and few: "int (length (reservation_cats df)) < top_categories - 1"
  shows "distinct (fillers srt df top_categories)"
    and "set (fillers srt df top_categories)
           \<subseteq> categories df - {c. Some c \<in> set (reservation_cats df)}"
    and "int (length (fillers srt df top_categories)) =
           top_categories - 1 - int (length (reservation_cats df))"
proof -
  let ?M = "reservation_cats df"
  let ?cands = "candidates srt df"
  let ?k = "nat (top_categories - 1 - int (length ?M))"
  have f: "fillers srt df top_categories = take ?k (map fst ?cands)"
    by (simp add: fillers_def Let_def take_map)
  show "distinct (fillers srt df top_categories)"
    unfolding f using candidates_props(1) [OF srt, of df] by simp
  show "set (fillers srt df top_categories) \<subseteq> categories df - {c. Some c \<in> set ?M}"
    unfolding f using candidates_props(2) [OF srt, of df] set_take_subset by fast
  have "?k \<le> length ?cands"
    using candidates_props(3) [OF srt, of df] big few by linarith
  then have "length (fillers srt df top_categories) = ?k"
    unfolding f by simp
  then show "int (length (fillers srt df top_categories)) = top_categories - 1 - int (length ?M)"
    using few by simp
qed

lemma keep_fill_card:
  assumes ord: "lists_elements ord" and srt: "sorts_descending srt"
    and big: "top_categories < int (card (categories df))"
    and few: "int (length (reservation_cats df)) < top_categories - 1"
  shows "int (card (set (categories_to_keep srt ord df top_categories))) = top_categories - 1"
proof -
  let ?M = "reservation_cats df"
  let ?F = "fillers srt df top_categories"
  have disj: "set ?M \<inter> Some ` set ?F = {}"
    using fillers_props(2) [OF srt big few] by auto
  have "card (set ?M \<union> Some ` set ?F) = card (set ?M) + card (Some ` set ?F)"
    by (rule card_Un_disjoint) (simp_all add: disj)
  also have "card (Some ` set ?F) = card (set ?F)"
    by (rule card_image) simp
  also have "card (set ?M) + card (set ?F) = length ?M + length ?F"
    by (simp add: distinct_card reservation_cats_distinct fillers_props(1) [OF srt big few])
  finally have "int (card (set ?M \<union> Some ` set ?F)) = int (length ?M) + int (length ?F)"
    by simp
  then show ?thesis
    unfolding keep_fill_set [OF ord big few] fillers_props(3) [OF srt big few] by simp
qed

text \<open>A category with a reserved record is kept, in each of the three branches.\<close>

lemma reserved_kept:
  assumes ord: "lists_elements ord" and c: "Some c \<in> set (reservation_cats df)"
  shows "Some c \<in> set (categories_to_keep srt ord df top_categories)"
proof (cases "int (card (categories df)) \<le> top_categories")
  case True
  then show ?thesis
    using reservation_cats_present [OF c] by (simp add: keep_all_set)
next
  case big: False
  show ?thesis
  proof (cases "top_categories - 1 \<le> int (length (reservation_cats df))")
    case True
    with big c show ?thesis by (simp add: keep_mandatory)
  next
    case False
    with big have b: "top_categories < int (card (categories df))"
      and f: "int (length (reservation_cats df)) < top_categories - 1" by simp_all
    show ?thesis unfolding keep_fill_set [OF ord b f] using c by simp
  qed
qed

section \<open>C2: the size of the kept set\<close>

text \<open>
  C2, as amended. For every table and every cap: when the number of distinct categories is
  at most the cap, the kept set is the set of all categories. When there are more
  categories than the cap, the kept set has exactly as many elements as the larger of
  cap - 1 and the length of the mandatory list (the distinct categories of the reserved
  records). If the mandatory list has at least cap - 1 entries, the kept list is the
  mandatory list itself, which can be longer than the cap. If it has at most cap - 1
  entries, the kept set has cap - 1 elements and there is a record whose category is not
  kept and which is grouped as Others, the bucket that takes the remaining slot.
\<close>

theorem C2_kept_size:
  assumes srt: "sorts_descending srt" and ord: "lists_elements ord"
  shows "(int (card (categories df)) \<le> top_categories \<longrightarrow>
            set (categories_to_keep srt ord df top_categories) = Some ` categories df)
       \<and> (top_categories < int (card (categories df)) \<longrightarrow>
            int (card (set (categories_to_keep srt ord df top_categories)))
              = max (int (length (reservation_cats df))) (top_categories - 1))
       \<and> (top_categories < int (card (categories df))
            \<and> top_categories - 1 \<le> int (length (reservation_cats df)) \<longrightarrow>
            categories_to_keep srt ord df top_categories = reservation_cats df)
       \<and> (top_categories < int (card (categories df))
            \<and> int (length (reservation_cats df)) \<le> top_categories - 1 \<longrightarrow>
            (\<exists>r\<in>set df. MeterCategory r \<noteq> None
               \<and> MeterCategory r \<notin> set (categories_to_keep srt ord df top_categories)
               \<and> MeterCategory_Grouped (categories_to_keep srt ord df top_categories) r
                   = Some ''Others''))"
proof (intro conjI impI)
  let ?keep = "categories_to_keep srt ord df top_categories"
  let ?M = "reservation_cats df"
  show "set ?keep = Some ` categories df" if "int (card (categories df)) \<le> top_categories"
    using that by (rule keep_all_set)
  show size: "int (card (set ?keep)) = max (int (length ?M)) (top_categories - 1)"
    if big: "top_categories < int (card (categories df))"
  proof (cases "top_categories - 1 \<le> int (length ?M)")
    case True
    then show ?thesis
      by (simp add: keep_mandatory [OF big True] distinct_card reservation_cats_distinct)
  next
    case False
    then have few: "int (length ?M) < top_categories - 1" by simp
    show ?thesis using few by (simp add: keep_fill_card [OF ord srt big few])
  qed
  show "?keep = ?M"
    if "top_categories < int (card (categories df)) \<and> top_categories - 1 \<le> int (length ?M)"
    using that by (simp add: keep_mandatory)
  show "\<exists>r\<in>set df. MeterCategory r \<noteq> None \<and> MeterCategory r \<notin> set ?keep
          \<and> MeterCategory_Grouped ?keep r = Some ''Others''"
    if h: "top_categories < int (card (categories df))
            \<and> int (length ?M) \<le> top_categories - 1"
  proof -
    from h size have "int (card (set ?keep)) = top_categories - 1" by simp
    with h have less: "card (set ?keep) < card (categories df)" by linarith
    have "\<not> Some ` categories df \<subseteq> set ?keep"
    proof
      assume "Some ` categories df \<subseteq> set ?keep"
      then have "card (Some ` categories df) \<le> card (set ?keep)"
        by (intro card_mono) simp_all
      moreover have "card (Some ` categories df) = card (categories df)"
        by (rule card_image) simp
      ultimately show False using less by simp
    qed
    then obtain c where "c \<in> categories df" and out: "Some c \<notin> set ?keep" by blast
    then obtain r where r: "r \<in> set df" and rc: "MeterCategory r = Some c"
      by (auto simp: categories_iff)
    from rc out have "MeterCategory r \<noteq> None" and "MeterCategory r \<notin> set ?keep"
      and "MeterCategory_Grouped ?keep r = Some ''Others''"
      by (simp_all add: MeterCategory_Grouped_def apply_grouping_def)
    with r show ?thesis by blast
  qed
qed

lemma four_categories_count: "card (categories four_categories) = 4"
  by (simp add: categories_def List.map_filter_simps four_categories_def mk_row_def)

lemma four_categories_reserved: "reservation_cats four_categories = [Some ''B'']"
  by (simp add: reservation_cats_def four_categories_def mk_row_def)

theorem C2_kept_size_witness:
  "int (card (set (categories_to_keep sort_values_stable id four_categories 3))) = 2"
  using C2_kept_size [OF stable_sorts id_lists, of four_categories 3]
  by (simp only: four_categories_count four_categories_reserved) simp

text \<open>The claim as stated fails when the reserved categories outnumber the cap: three
  reserved categories and a cap of two give a kept set of three.\<close>

theorem C2_counterexample:
  "(0::int) < 2 \<and> int (card (set (categories_to_keep sort_values_stable id three_reserved 2))) > 2"
  by code_simp

section \<open>C3: reserved categories stay visible\<close>

lemma block2_sources:
  assumes "sorts_descending srt"
  shows "fst ` set (flow2 (category_sort_list srt keep df) m)
       = (\<lambda>c. get_label c m) ` {g. Some g \<in> MeterCategory_Grouped keep ` set df}"
proof -
  have "fst ` set (flow2 (category_sort_list srt keep df) m)
      = (\<lambda>c. get_label c m) ` set (map fst (category_sort_list srt keep df))"
    by (force simp: flow2_def image_image case_prod_unfold)
  then show ?thesis by (simp only: category_sort_keys(1) [OF assms])
qed

lemma block1_destinations:
  "snd ` snd ` set (flow1 keep cs df m) \<subseteq> (\<lambda>c. get_label c m) ` fst ` set cs"
  by (fastforce simp: flow1_def flow1_model_def Let_def image_iff split: option.splits if_splits)

lemma block1_positive: "\<forall>e\<in>set (flow1 keep cs df m). 0 < edge_cost e"
  by (auto simp: flow1_def flow1_model_def Let_def edge_cost_def split: option.splits if_splits)

text \<open>
  C3. For every table and cap, if a category (after the umbrella merge) has a record with
  pricing model Reservation and the number of such categories is strictly less than
  cap - 1, then the category is in the kept set, the grouped category of its record is the
  category itself, and Block 2 has a line whose source is the label of that category.
\<close>

theorem C3_reservation_kept:
  assumes srt: "sorts_descending srt" and ord: "lists_elements ord"
    and r: "r \<in> set (combine_categories df)" and c: "MeterCategory r = Some c"
    and res: "PricingModel r = Some ''Reservation''"
    and few: "int (length (reservation_cats (combine_categories df))) < top_categories - 1"
  shows "Some c \<in> set (categories_to_keep srt ord (combine_categories df) top_categories)
       \<and> MeterCategory_Grouped
            (categories_to_keep srt ord (combine_categories df) top_categories) r = Some c
       \<and> (\<exists>e\<in>set (block2 (sankey_flows srt ord df top_categories overwrite_map)).
            fst e = get_label c overwrite_map)"
proof -
  let ?df = "combine_categories df"
  let ?keep = "categories_to_keep srt ord ?df top_categories"
  have "MeterCategory r \<in> set (reservation_cats ?df)"
    using r res unfolding reservation_cats_set by blast
  then have "Some c \<in> set (reservation_cats ?df)" by (simp only: c)
  then have k: "Some c \<in> set ?keep" using ord by (intro reserved_kept)
  then have g: "MeterCategory_Grouped ?keep r = Some c"
    using grouped_kept [of r ?keep] by (simp add: c)
  have "Some c \<in> MeterCategory_Grouped ?keep ` set ?df"
    using r g by (metis imageI)
  then have "get_label c overwrite_map
      \<in> (\<lambda>c. get_label c overwrite_map) ` {g. Some g \<in> MeterCategory_Grouped ?keep ` set ?df}"
    by blast
  then have "get_label c overwrite_map
      \<in> fst ` set (block2 (sankey_flows srt ord df top_categories overwrite_map))"
    by (simp add: sankey_flows_def Let_def block2_sources [OF srt])
  then obtain e where "e \<in> set (block2 (sankey_flows srt ord df top_categories overwrite_map))"
    and "fst e = get_label c overwrite_map" by force
  with k g show ?thesis by blast
qed

lemma four_categories_merged: "combine_categories four_categories = four_categories"
  by (simp add: combine_categories_def four_categories_def mk_row_def replace_category_def
      merged_categories_def)

text \<open>The witness is in the last branch of the selection: four categories, a cap of three
  and one reserved category, so that one slot is filled by cost.\<close>

theorem C3_reservation_kept_witness:
  "Some ''B'' \<in> set (categories_to_keep sort_values_stable id (combine_categories four_categories) 3)
   \<and> int (length (groupby_sum MeterCategory (combine_categories four_categories))) > 3"
proof -
  have r: "mk_row ''B'' ''Reservation'' ''prod'' 300 \<in> set (combine_categories four_categories)"
    by (simp add: four_categories_merged) (simp add: four_categories_def)
  have c: "MeterCategory (mk_row ''B'' ''Reservation'' ''prod'' (300::int)) = Some ''B''"
    by (simp add: mk_row_def)
  have res: "PricingModel (mk_row ''B'' ''Reservation'' ''prod'' (300::int)) = Some ''Reservation''"
    by (simp add: mk_row_def)
  have few: "int (length (reservation_cats (combine_categories four_categories))) < 3 - 1"
    by (simp add: four_categories_merged four_categories_reserved)
  have n: "int (length (groupby_sum MeterCategory (combine_categories four_categories))) > 3"
    by (simp add: four_categories_merged groupby_cat_length four_categories_count)
  from C3_reservation_kept [OF stable_sorts id_lists r c res few] n show ?thesis by blast
qed

section \<open>C5: no bucket when all categories fit\<close>

text \<open>
  C5, as amended. For every table in which no record lacks its category and whose number
  of distinct categories (after the umbrella merge) is at most the cap, every record keeps
  its own category as its grouped category, and every category node of Blocks 1 and 2 is
  the label of a category of the table. So the name Others appears as a category node
  only when the table has a category of that very name, or the label map gives that label
  to one of its categories.
\<close>

theorem C5_no_others_bucket:
  assumes srt: "sorts_descending srt"
    and present: "\<forall>r\<in>set df. MeterCategory r \<noteq> None"
    and small: "int (card (categories (combine_categories df))) \<le> top_categories"
  shows "(\<forall>r\<in>set (combine_categories df).
            MeterCategory_Grouped
              (categories_to_keep srt ord (combine_categories df) top_categories) r = MeterCategory r)
       \<and> (\<forall>e\<in>set (block2 (sankey_flows srt ord df top_categories overwrite_map)).
            \<exists>c\<in>categories (combine_categories df). fst e = get_label c overwrite_map)
       \<and> (\<forall>e\<in>set (block1 (sankey_flows srt ord df top_categories overwrite_map)).
            \<exists>c\<in>categories (combine_categories df). snd (snd e) = get_label c overwrite_map)"
proof -
  let ?df = "combine_categories df"
  let ?keep = "categories_to_keep srt ord ?df top_categories"
  have keep: "set ?keep = Some ` categories ?df" using small by (rule keep_all_set)
  have present': "\<forall>r\<in>set ?df. MeterCategory r \<noteq> None"
    using present by (simp only: combine_present)
  have own: "\<forall>r\<in>set ?df. MeterCategory_Grouped ?keep r = MeterCategory r"
  proof
    fix r assume r: "r \<in> set ?df"
    with present' obtain c where c: "MeterCategory r = Some c" by auto
    with r have "c \<in> categories ?df" by (auto simp: categories_iff intro: rev_image_eqI)
    then have "MeterCategory r \<in> set ?keep" by (simp add: keep c)
    then show "MeterCategory_Grouped ?keep r = MeterCategory r" by (rule grouped_kept)
  qed
  then have "MeterCategory_Grouped ?keep ` set ?df = MeterCategory ` set ?df" by simp
  then have img: "{g. Some g \<in> MeterCategory_Grouped ?keep ` set ?df} = categories ?df"
    by (simp add: categories_def set_map_filter)
  have b2: "fst ` set (block2 (sankey_flows srt ord df top_categories overwrite_map))
          = (\<lambda>c. get_label c overwrite_map) ` categories ?df"
    by (simp add: sankey_flows_def Let_def block2_sources [OF srt] img)
  have "fst ` set (category_sort_list srt ?keep ?df) = categories ?df"
    using category_sort_keys(1) [OF srt, of ?keep ?df] by (simp add: img)
  then have b1: "snd ` snd ` set (block1 (sankey_flows srt ord df top_categories overwrite_map))
          \<subseteq> (\<lambda>c. get_label c overwrite_map) ` categories ?df"
    using block1_destinations [of ?keep "category_sort_list srt ?keep ?df" ?df overwrite_map]
    by (simp add: sankey_flows_def Let_def)
  have "\<exists>c\<in>categories ?df. fst e = get_label c overwrite_map"
    if "e \<in> set (block2 (sankey_flows srt ord df top_categories overwrite_map))" for e
  proof -
    from that have "fst e \<in> (\<lambda>c. get_label c overwrite_map) ` categories ?df"
      unfolding b2 [symmetric] by (rule imageI)
    then show ?thesis by blast
  qed
  moreover have "\<exists>c\<in>categories ?df. snd (snd e) = get_label c overwrite_map"
    if "e \<in> set (block1 (sankey_flows srt ord df top_categories overwrite_map))" for e
  proof -
    from that have "snd (snd e)
        \<in> snd ` snd ` set (block1 (sankey_flows srt ord df top_categories overwrite_map))"
      by (intro imageI)
    with b1 have "snd (snd e) \<in> (\<lambda>c. get_label c overwrite_map) ` categories ?df" by blast
    then show ?thesis by blast
  qed
  ultimately show ?thesis using own by blast
qed

lemma spec_example_merged: "combine_categories spec_example = spec_example"
  by (simp add: combine_categories_def spec_example_def mk_row_def replace_category_def
      merged_categories_def)

theorem C5_no_others_bucket_witness:
  "MeterCategory_Grouped
     (categories_to_keep sort_values_stable id (combine_categories spec_example) 3)
     (mk_row ''C'' ''OnDemand'' ''dev'' 100) = MeterCategory (mk_row ''C'' ''OnDemand'' ''dev'' (100::int))"
proof -
  have present: "\<forall>r\<in>set spec_example. MeterCategory r \<noteq> None"
    by (simp add: spec_example_def mk_row_def)
  have small: "int (card (categories (combine_categories spec_example))) \<le> 3"
    by (simp add: spec_example_merged)
      (simp add: categories_def List.map_filter_simps spec_example_def mk_row_def)
  have r: "mk_row ''C'' ''OnDemand'' ''dev'' 100 \<in> set (combine_categories spec_example)"
    by (simp add: spec_example_merged) (simp add: spec_example_def)
  from C5_no_others_bucket [OF stable_sorts present small, of id Map.empty] r
  show ?thesis by blast
qed

text \<open>
  The claim as stated fails in two ways. On a table that has a category named Others, all
  categories fit under the cap and Others is a node of Block 2. On a table with a record
  that has no category, the record is left out of the count of categories, which fit
  under the cap, and is grouped as Others all the same: Block 2 has a line of Others,
  though no category of the table has that name.
\<close>

theorem C5_counterexample:
  "int (card (categories (combine_categories others_category))) \<le> 9
   \<and> (''Others'', 5, ''TotalMonthly'')
       \<in> set (block2 (sankey_flows sort_values_stable id others_category 9 Map.empty))
   \<and> int (card (categories (combine_categories missing_category))) \<le> 9
   \<and> ''Others'' \<notin> categories (combine_categories missing_category)
   \<and> (''Others'', 3, ''TotalMonthly'')
       \<in> set (block2 (sankey_flows sort_values_stable id missing_category 9 Map.empty))"
  by code_simp

section \<open>C9: the umbrella merge comes before the mandatory set\<close>






section \<open>C10: a cap of at most one\<close>

lemma groupby_const:
  "groupby_sum (\<lambda>r. Some c) df = (if df = [] then [] else [(c, int64 (grand_total df))])"
proof (cases df)
  case Nil
  then show ?thesis by (simp add: groupby_sum_def List.map_filter_simps)
next
  case (Cons r rs)
  have "remdups (replicate n c) = (if n = 0 then [] else [c])" for n
    by (induction n) auto
  moreover have "List.map_filter (\<lambda>r. Some c) df = replicate (length df) c"
    by (induction df) (simp_all add: List.map_filter_simps)
  ultimately have "remdups (List.map_filter (\<lambda>r. Some c) df) = [c]"
    using Cons by simp
  then show ?thesis using Cons by (simp add: groupby_sum_def grand_total_def)
qed

lemma grouped_none_kept: "MeterCategory_Grouped [] = (\<lambda>r. Some ''Others'')"
  by (simp add: MeterCategory_Grouped_def apply_grouping_def fun_eq_iff)

text \<open>
  C10. For every table with no record priced Reservation and strictly more distinct
  categories than the cap, if the cap is at most 1 then the kept list is empty, the grouped
  category of every record is Others, Block 2 is the single line of Others with the 64-bit
  sum of all costs (no line at all for the empty table), and every Block-1 line leads to
  Others.
\<close>

theorem C10_degenerate_cap:
  assumes srt: "sorts_descending srt"
    and nores: "\<forall>r\<in>set df. PricingModel r \<noteq> Some ''Reservation''"
    and big: "top_categories < int (card (categories (combine_categories df)))"
    and cap: "top_categories \<le> 1"
  shows "categories_to_keep srt ord (combine_categories df) top_categories = []
       \<and> (\<forall>r\<in>set (combine_categories df).
            MeterCategory_Grouped
              (categories_to_keep srt ord (combine_categories df) top_categories) r
              = Some ''Others'')
       \<and> block2 (sankey_flows srt ord df top_categories overwrite_map)
            = (if df = [] then []
               else [(get_label ''Others'' overwrite_map, int64 (grand_total df),
                      ''TotalMonthly'')])
       \<and> (\<forall>e\<in>set (block1 (sankey_flows srt ord df top_categories overwrite_map)).
            snd (snd e) = get_label ''Others'' overwrite_map)"
proof -
  let ?df = "combine_categories df"
  let ?keep = "categories_to_keep srt ord ?df top_categories"
  have "filter (\<lambda>r. PricingModel r = Some ''Reservation'') ?df = []"
    using nores by (auto simp: filter_empty_conv combine_categories_def)
  then have none: "reservation_cats ?df = []"
    by (simp add: reservation_cats_def)
  have keep: "?keep = []"
    using keep_mandatory [OF big, of srt ord] cap by (simp add: none)
  have cs: "category_sort_list srt [] ?df
          = (if df = [] then [] else [(''Others'', int64 (grand_total df))])"
    by (simp add: category_sort_list_def grouped_none_kept groupby_const sorter_single [OF srt]
        sorter_Nil [OF srt]) (simp add: combine_categories_def)
  have b2: "block2 (sankey_flows srt ord df top_categories overwrite_map)
          = (if df = [] then []
             else [(get_label ''Others'' overwrite_map, int64 (grand_total df),
                    ''TotalMonthly'')])"
    by (simp add: sankey_flows_def Let_def keep cs flow2_def)
  have "snd ` snd ` set (block1 (sankey_flows srt ord df top_categories overwrite_map))
          \<subseteq> {get_label ''Others'' overwrite_map}"
    using block1_destinations [of "[]" "category_sort_list srt [] ?df" ?df overwrite_map]
    by (simp add: sankey_flows_def Let_def keep cs split: if_splits)
  then have b1: "\<forall>e\<in>set (block1 (sankey_flows srt ord df top_categories overwrite_map)).
            snd (snd e) = get_label ''Others'' overwrite_map"
    by fastforce
  show ?thesis using keep b2 b1 by (simp add: grouped_none_kept)
qed

theorem C10_degenerate_cap_witness:
  "categories_to_keep sort_values_stable id (combine_categories no_reservation) 1 = []
   \<and> block2 (sankey_flows sort_values_stable id no_reservation 1 Map.empty)
       = [(''Others'', 600, ''TotalMonthly'')]"
proof -
  have nores: "\<forall>r\<in>set no_reservation. PricingModel r \<noteq> Some ''Reservation''"
    by (simp add: no_reservation_def mk_row_def)
  have big: "1 < int (card (categories (combine_categories no_reservation)))"
    by (simp add: categories_def List.map_filter_simps combine_categories_def
        no_reservation_def mk_row_def replace_category_def merged_categories_def)
  have cap: "(1::int) \<le> 1" by simp
  have "no_reservation \<noteq> []" "int64 (grand_total no_reservation) = 600"
    "get_label ''Others'' Map.empty = ''Others''"
    by (simp_all add: no_reservation_def grand_total_def mk_row_def get_label_def int64_def)
  with C10_degenerate_cap [OF stable_sorts nores big cap, of id Map.empty]
  show ?thesis by simp
qed

section \<open>C4: lines with a cost of zero\<close>

text \<open>
  C4. The claim is that no emitted line of any block has a cost of zero. Block 1 keeps to
  it: the program emits a Block-1 line only for a sum greater than zero (fact
  \<open>block1_positive\<close>). Blocks 2 and 3 have no such test: for the table whose only record
  has the cleaned cost 0 (a cost of 0.3, say, before rounding), the program emits a
  Block-2 line and a Block-3 line with the cost 0.
\<close>

theorem C4_zero_cost_lines:
  "sankey_lines (sankey_flows sort_values_stable id zero_cost 9 Map.empty)
     = ['''', ''A [0] TotalMonthly'', '''', ''TotalMonthly [0] dev'']"
  by code_simp

section \<open>C7: the cost normalizer\<close>

lemma round_half_even_nonneg: "0 \<le> q \<Longrightarrow> 0 \<le> round_half_even q"
  by (simp add: round_half_even_def Let_def)

lemma round_half_even_of_int [simp]: "round_half_even (of_int k) = k"
  by (simp add: round_half_even_def Let_def)

lemma pow2_pos: "0 < pow2 k"
  by (simp add: pow2_def)

lemma to_float64_nonneg:
  assumes "0 \<le> q" and "to_float64 q = Finite r"
  shows "0 \<le> r"
proof (cases "q = 0")
  case True
  with assms show ?thesis by (simp add: to_float64_def)
next
  case False
  let ?p = "max (binary_exponent \<bar>q\<bar> - 52) (- 1074)"
  have "0 \<le> \<bar>q\<bar> / pow2 ?p" using pow2_pos [of ?p] by simp
  then have "0 \<le> round_half_even (\<bar>q\<bar> / pow2 ?p)" by (rule round_half_even_nonneg)
  then have "0 \<le> of_int (round_half_even (\<bar>q\<bar> / pow2 ?p)) * pow2 ?p"
    using pow2_pos [of ?p] by simp
  with assms False show ?thesis
    by (auto simp: to_float64_def Let_def split: if_splits)
qed

lemma is_digit_value: "is_digit c \<Longrightarrow> (48::int) \<le> of_char c"
  by (auto simp: is_digit_def)

lemma digits_value_nonneg_aux:
  "list_all is_digit ds \<Longrightarrow> 0 \<le> n \<Longrightarrow> 0 \<le> foldl (\<lambda>n c. 10 * n + (of_char c - 48)) (n::int) ds"
proof (induction ds arbitrary: n)
  case Nil
  then show ?case by simp
next
  case (Cons c ds)
  then have "0 \<le> 10 * n + (of_char c - 48)" using is_digit_value [of c] by simp
  with Cons show ?case by simp
qed

lemma digits_value_nonneg: "list_all is_digit ds \<Longrightarrow> 0 \<le> digits_value ds"
  unfolding digits_value_def by (rule digits_value_nonneg_aux) simp_all

lemma scale10_nonneg: "0 \<le> x \<Longrightarrow> 0 \<le> scale10 x k"
  by (simp add: scale10_def)

lemma takeWhile_digits: "list_all is_digit (takeWhile is_digit s)"
  by (induction s) simp_all

lemma parse_magnitude_nonneg:
  assumes "parse_magnitude s = Some (Finite r)"
  shows "0 \<le> r"
proof -
  let ?ip = "takeWhile is_digit s"
  let ?r1 = "dropWhile is_digit s"
  let ?fp = "case ?r1 of [] \<Rightarrow> [] | c # t \<Rightarrow> if c = CHR ''.'' then takeWhile is_digit t else []"
  have "list_all is_digit ?fp"
    by (simp add: takeWhile_digits split: list.splits)
  then have "list_all is_digit (?ip @ ?fp)" by (simp add: takeWhile_digits)
  then have v: "0 \<le> scale10 (of_int (digits_value (?ip @ ?fp))) k" for k
    by (intro scale10_nonneg) (simp add: digits_value_nonneg)
  from assms obtain ex where
    "to_float64 (scale10 (of_int (digits_value (?ip @ ?fp))) (ex - int (length ?fp))) = Finite r"
    by (auto simp: parse_magnitude_def Let_def split: if_splits option.splits)
  with v show ?thesis by (rule to_float64_nonneg)
qed

lemma remove_underscores_set:
  "remove_underscores prev s = Some t \<Longrightarrow> set t \<subseteq> set s"
  by (induction prev s arbitrary: t rule: remove_underscores.induct)
     (auto split: if_splits)

lemma strip_set: "set (strip s) \<subseteq> set s"
proof -
  have "set (dropWhile is_space (rev (dropWhile is_space s))) \<subseteq> set (rev (dropWhile is_space s))"
    by (rule set_dropWhileD [THEN subsetI])
  also have "\<dots> \<subseteq> set s" using set_dropWhileD by fastforce
  finally show ?thesis by (simp add: strip_def)
qed

lemma py_float_nonneg:
  assumes "py_float s = Some (Finite q)" and "CHR ''-'' \<notin> set s"
  shows "0 \<le> q"
proof -
  from assms(1) obtain t where t: "remove_underscores (CHR 0x00) (strip s) = Some t"
    by (auto simp: py_float_def split: option.splits)
  with assms(2) have no: "CHR ''-'' \<notin> set t"
    using remove_underscores_set [OF t] strip_set [of s] by blast
  from assms(1) t obtain c u where tu: "t = c # u"
    by (cases t) (auto simp: py_float_def)
  with no have c: "c \<noteq> CHR ''-''" by auto
  from assms(1) t tu c have "parse_magnitude u = Some (Finite q) \<or> parse_magnitude t = Some (Finite q)"
    by (auto simp: py_float_def split: if_splits)
  then show ?thesis using parse_magnitude_nonneg by blast
qed

lemma remove_commas_set: "set (remove_commas s) \<subseteq> set s"
  by (auto simp: remove_commas_def)

lemma clean_cost_finite:
  assumes p: "py_float (remove_commas s) = Some (Finite q)"
    and lo: "- (2 ^ 63) \<le> round_half_even q" and hi: "round_half_even q < 2 ^ 63"
  shows "clean_cost s = Inr (round_half_even q)"
proof -
  have "(- (2 ^ 63) :: rat) \<le> of_int (round_half_even q)"
    using lo by (metis of_int_le_iff of_int_minus of_int_numeral of_int_power)
  moreover have "(of_int (round_half_even q) :: rat) < 2 ^ 63"
    using hi by (metis of_int_less_iff of_int_numeral of_int_power)
  ultimately have "to_int (Finite (of_int (round_half_even q))) = round_half_even q"
    by (simp add: to_int_def)
  then show ?thesis
    by (simp add: clean_cost_def clean_column_def p astype_int_def round0_def is_finite_def)
qed

subsection \<open>The rounding to a double is to the nearest double\<close>

lemma pow2_powi: "pow2 k = 2 powi k"
  by (simp add: pow2_def power_int_def inverse_eq_divide power_one_over)

lemma pow2_add: "pow2 (j + k) = pow2 j * pow2 k"
  by (simp add: pow2_powi power_int_add)

lemma pow2_mono: "j \<le> k \<Longrightarrow> pow2 j \<le> pow2 k"
  by (simp add: pow2_powi power_int_increasing)

lemma pow2_nat: "0 \<le> k \<Longrightarrow> pow2 k = of_int (2 ^ nat k)"
  by (simp add: pow2_def)

lemma bit_length_nonneg: "0 \<le> bit_length n"
  by (induction n rule: bit_length.induct) (subst bit_length.simps, simp)

lemma bit_length_pos: "0 < n \<Longrightarrow> 0 < bit_length n"
  using bit_length_nonneg [of "n div 2"] by (subst bit_length.simps) simp

lemma bit_length_bounds:
  "0 < n \<Longrightarrow> 2 ^ nat (bit_length n - 1) \<le> n \<and> n < 2 ^ nat (bit_length n)"
proof (induction n rule: bit_length.induct)
  case (1 n)
  show ?case
  proof (cases "n = 1")
    case True
    have "bit_length 1 = 1"
      by (subst bit_length.simps) (simp add: bit_length.simps [of 0])
    with True show ?thesis by simp
  next
    case False
    with "1.prems" have h: "0 < n div 2" by simp
    let ?b = "bit_length (n div 2)"
    have bl: "bit_length n = 1 + ?b"
      using "1.prems" by (subst bit_length.simps) simp
    from "1.IH" h "1.prems" have ih: "2 ^ nat (?b - 1) \<le> n div 2" "n div 2 < 2 ^ nat ?b"
      by simp_all
    have bp: "0 < ?b" using h by (rule bit_length_pos)
    then have e: "nat ?b = Suc (nat (?b - 1))" by simp
    have "2 * 2 ^ nat (?b - 1) \<le> 2 * (n div 2)" using ih(1) by simp
    also have "\<dots> \<le> n" by simp
    finally have lo: "2 ^ nat ?b \<le> n" by (simp add: e)
    have "n < 2 * (n div 2) + 2" by linarith
    also have "\<dots> \<le> 2 * 2 ^ nat ?b" using ih(2) by simp
    finally have hi: "n < 2 ^ Suc (nat ?b)" by simp
    have "nat (1 + ?b) = Suc (nat ?b)" using bp by simp
    with lo hi show ?thesis by (simp add: bl)
  qed
qed

lemma binary_exponent_bounds:
  assumes "0 < q"
  shows "pow2 (binary_exponent q) \<le> q \<and> q < pow2 (binary_exponent q + 1)"
proof -
  obtain a b where ab: "quotient_of q = (a, b)" by (cases "quotient_of q")
  then have b: "0 < b" by (rule quotient_of_denom_pos)
  from ab have q: "q = of_int a / of_int b" by (rule quotient_of_div)
  with assms b have a: "0 < a" by (simp add: zero_less_divide_iff)
  let ?la = "bit_length a" and ?lb = "bit_length b"
  let ?k = "?la - ?lb"
  note A = bit_length_bounds [OF a] and B = bit_length_bounds [OF b]
  have la: "0 < ?la" and lb: "0 < ?lb" using a b by (simp_all add: bit_length_pos)
  have a_lo: "pow2 (?la - 1) \<le> of_int a" and a_hi: "of_int a < pow2 ?la"
    using A la by (simp_all add: pow2_nat)
  have b_lo: "pow2 (?lb - 1) \<le> of_int b" and b_hi: "of_int b < pow2 ?lb"
    using B lb by (simp_all add: pow2_nat)
  have bq: "(0::rat) < of_int b" using b by simp
  have "pow2 (?k - 1) * of_int b < pow2 (?k - 1) * pow2 ?lb"
    using b_hi pow2_pos [of "?k - 1"] by simp
  also have "\<dots> = pow2 (?la - 1)" by (simp add: pow2_add [symmetric])
  also have "\<dots> \<le> of_int a" by (rule a_lo)
  finally have lower: "pow2 (?k - 1) < q"
    unfolding q using bq by (simp add: pos_less_divide_eq)
  have "of_int a < pow2 ?la" by (rule a_hi)
  also have "\<dots> = pow2 (?k + 1) * pow2 (?lb - 1)" by (simp add: pow2_add [symmetric])
  also have "\<dots> \<le> pow2 (?k + 1) * of_int b"
    using b_lo pow2_pos [of "?k + 1"] by simp
  finally have upper: "q < pow2 (?k + 1)"
    unfolding q using bq by (simp add: pos_divide_less_eq)
  have be: "binary_exponent q = (if pow2 ?k \<le> q then ?k else ?k - 1)"
    by (simp add: binary_exponent_def ab Let_def)
  show ?thesis
  proof (cases "pow2 ?k \<le> q")
    case True
    with upper be show ?thesis by simp
  next
    case False
    with lower be show ?thesis by simp
  qed
qed

lemma pow2_less_cancel: "pow2 j < pow2 k \<Longrightarrow> j < k"
  using pow2_mono [of k j] by (cases "j < k") simp_all

lemma round_half_even_error: "\<bar>of_int (round_half_even x) - x\<bar> \<le> 1 / 2"
proof -
  have "of_int \<lfloor>x\<rfloor> \<le> x" "x < of_int \<lfloor>x\<rfloor> + 1" by linarith+
  then show ?thesis
    by (auto simp: round_half_even_def Let_def abs_le_iff)
qed

text \<open>A number with a significand of at most 53 bits, at or above the smallest spacing
  and below the overflow threshold, is a double: rounding leaves it as it is.\<close>

lemma to_float64_exact:
  assumes m: "\<bar>m\<bar> < 2 ^ 53" and p: "- 1074 \<le> p"
    and fin: "of_int \<bar>m\<bar> * pow2 p < pow2 1024"
  shows "to_float64 (of_int m * pow2 p) = Finite (of_int m * pow2 p)"
proof (cases "m = 0")
  case True
  then show ?thesis by (simp add: to_float64_def)
next
  case False
  define q :: rat where "q = of_int m * pow2 p"
  define a :: rat where "a = of_int \<bar>m\<bar> * pow2 p"
  define p' where "p' = max (binary_exponent a - 52) (- 1074)"
  have qa: "\<bar>q\<bar> = a" using pow2_pos [of p] by (simp add: q_def a_def abs_mult)
  have apos: "0 < a" using False pow2_pos [of p] by (simp add: a_def)
  have "(of_int \<bar>m\<bar> :: rat) < pow2 53"
    using m by (simp add: pow2_def)
  then have "a < pow2 53 * pow2 p" using pow2_pos [of p] by (simp add: a_def)
  then have "a < pow2 (53 + p)" by (simp add: pow2_add)
  with binary_exponent_bounds [OF apos] have "pow2 (binary_exponent a) < pow2 (53 + p)"
    by simp
  then have "binary_exponent a < 53 + p" by (rule pow2_less_cancel)
  with p have le: "p' \<le> p" by (simp add: p'_def)
  have "pow2 p = pow2 ((p - p') + p')" by simp
  also have "\<dots> = pow2 (p - p') * pow2 p'" by (rule pow2_add)
  also have "pow2 (p - p') = of_int (2 ^ nat (p - p'))" using le by (simp add: pow2_nat)
  finally have split: "pow2 p = of_int (2 ^ nat (p - p')) * pow2 p'" .
  have a': "a = of_int (\<bar>m\<bar> * 2 ^ nat (p - p')) * pow2 p'"
    unfolding a_def by (subst split) simp
  have "a / pow2 p' = of_int (\<bar>m\<bar> * 2 ^ nat (p - p'))"
    using pow2_pos [of p'] by (subst a') simp
  then have "of_int (round_half_even (a / pow2 p')) * pow2 p'
      = of_int (\<bar>m\<bar> * 2 ^ nat (p - p')) * pow2 p'"
    by (simp only: round_half_even_of_int)
  then have r: "of_int (round_half_even (a / pow2 p')) * pow2 p' = a"
    by (simp only: a' [symmetric])
  have q0: "q \<noteq> 0" using apos qa by auto
  have fin': "\<not> pow2 1024 \<le> a" using fin by (simp add: a_def)
  have "to_float64 q = Finite (if q < 0 then - a else a)"
    unfolding to_float64_def Let_def qa p'_def [symmetric] r using q0 fin' by simp
  also have "(if q < 0 then - a else a) = q" using qa by (cases "q < 0") simp_all
  finally show ?thesis by (simp only: q_def)
qed

text \<open>The double is within half a spacing of the number it was rounded from.\<close>

lemma to_float64_error:
  assumes "q \<noteq> 0" and "to_float64 q = Finite r"
  shows "\<bar>r - q\<bar> \<le> pow2 (max (binary_exponent \<bar>q\<bar> - 52) (- 1074)) / 2"
proof -
  define p where "p = max (binary_exponent \<bar>q\<bar> - 52) (- 1074)"
  define x where "x = \<bar>q\<bar> / pow2 p"
  define k where "k = round_half_even x"
  have xp: "x * pow2 p = \<bar>q\<bar>" using pow2_pos [of p] by (simp add: x_def)
  have "of_int k * pow2 p - \<bar>q\<bar> = (of_int k - x) * pow2 p"
    by (simp add: left_diff_distrib xp)
  then have "\<bar>of_int k * pow2 p - \<bar>q\<bar>\<bar> = \<bar>of_int k - x\<bar> * \<bar>pow2 p\<bar>"
    by (simp only: abs_mult)
  also have "\<bar>pow2 p\<bar> = pow2 p" using pow2_pos [of p] by simp
  also have "\<bar>of_int k - x\<bar> * pow2 p \<le> 1 / 2 * pow2 p"
    unfolding k_def using round_half_even_error [of x] pow2_pos [of p]
    by (intro mult_right_mono) simp_all
  finally have err: "\<bar>of_int k * pow2 p - \<bar>q\<bar>\<bar> \<le> pow2 p / 2" by simp
  from assms have "to_float64 q = Finite (if q < 0 then - (of_int k * pow2 p) else of_int k * pow2 p)"
    unfolding to_float64_def Let_def p_def [symmetric] x_def [symmetric] k_def [symmetric]
    by (simp split: if_splits)
  with assms(2) have r: "r = (if q < 0 then - (of_int k * pow2 p) else of_int k * pow2 p)"
    by simp
  have "\<bar>r - q\<bar> = \<bar>of_int k * pow2 p - \<bar>q\<bar>\<bar>"
  proof (cases "q < 0")
    case True
    then have "r - q = - (of_int k * pow2 p - \<bar>q\<bar>)" by (simp add: r)
    then show ?thesis by (simp only: abs_minus)
  next
    case False
    then show ?thesis by (simp add: r)
  qed
  with err show ?thesis by (simp only: p_def)
qed

text \<open>
  C7, as amended. For every raw cost string from which, once its commas are removed, a
  finite floating-point number is read whose rounded value lies in the 64-bit range, the
  normalizer gives the integer nearest to that floating-point number, ties going to the
  even integer. The integer is non-negative when the string has no minus sign. In
  particular 1,234 gives 1234 and 999.5 gives 1000.
\<close>

theorem C7_cost_normalizer:
  assumes p: "py_float (remove_commas s) = Some (Finite q)"
    and lo: "- (2 ^ 63) \<le> round_half_even q" and hi: "round_half_even q < 2 ^ 63"
  shows "clean_cost s = Inr (round_half_even q)
       \<and> (CHR ''-'' \<notin> set s \<longrightarrow> 0 \<le> round_half_even q)
       \<and> clean_cost ''1,234'' = Inr 1234
       \<and> clean_cost ''999.5'' = Inr 1000"
proof (intro conjI impI)
  show "clean_cost s = Inr (round_half_even q)"
    using p lo hi by (rule clean_cost_finite)
  show "0 \<le> round_half_even q" if "CHR ''-'' \<notin> set s"
  proof -
    from that have "CHR ''-'' \<notin> set (remove_commas s)"
      using remove_commas_set [of s] by blast
    with p have "0 \<le> q" by (rule py_float_nonneg)
    then show ?thesis by (rule round_half_even_nonneg)
  qed
  show "clean_cost ''1,234'' = Inr 1234" by code_simp
  show "clean_cost ''999.5'' = Inr 1000" by code_simp
qed

lemma py_float_half: "py_float (remove_commas ''2.5'') = Some (Finite (5 / 2))"
  by code_simp

lemma round_half_even_half: "round_half_even (5 / 2) = 2"
  by code_simp

theorem C7_cost_normalizer_witness:
  "clean_cost ''2.5'' = Inr 2"
proof -
  have lo: "- (2 ^ 63) \<le> round_half_even (5 / 2)" by (simp add: round_half_even_half)
  have hi: "round_half_even (5 / 2) < 2 ^ 63" by (simp add: round_half_even_half)
  from C7_cost_normalizer [OF py_float_half lo hi] show ?thesis
    by (simp only: round_half_even_half)
qed

text \<open>
  The claim as stated fails in two ways. A negative amount (a refund or a credit) parses
  as a number and gives a negative integer. And the number that is rounded is the double
  nearest to the decimal, not the decimal itself: a decimal just above one half is read as
  the double one half, a tie, and goes to 0, though the decimal is nearer to 1.
\<close>

theorem C7_counterexample:
  "clean_cost ''-5'' = Inr (- 5) \<and> clean_cost ''0.50000000000000000001'' = Inr 0"
  by code_simp

section \<open>C8: two runs on the same input\<close>

lemma keep_set_independent:
  assumes "lists_elements ord1" and "lists_elements ord2"
  shows "set (categories_to_keep srt ord1 df top_categories)
       = set (categories_to_keep srt ord2 df top_categories)"
  using assms by (simp add: categories_to_keep_def Let_def lists_elements_def)

lemma grouped_cong:
  assumes "set keep1 = set keep2"
  shows "MeterCategory_Grouped keep1 = MeterCategory_Grouped keep2"
  using assms by (simp add: MeterCategory_Grouped_def apply_grouping_def fun_eq_iff)

lemma flow1_model_cong:
  assumes "set keep1 = set keep2"
  shows "flow1_model keep1 cs df m = flow1_model keep2 cs df m"
  by (simp add: flow1_model_def grouped_cong [OF assms] fun_eq_iff)

lemma flow1_cong:
  assumes "set keep1 = set keep2"
  shows "flow1 keep1 cs df m = flow1 keep2 cs df m"
  by (simp add: flow1_def flow1_model_cong [OF assms])

lemma sankey_flows_independent:
  assumes "lists_elements ord1" and "lists_elements ord2"
  shows "sankey_flows srt ord1 df top_categories overwrite_map
       = sankey_flows srt ord2 df top_categories overwrite_map"
proof -
  let ?k1 = "categories_to_keep srt ord1 (combine_categories df) top_categories"
  let ?k2 = "categories_to_keep srt ord2 (combine_categories df) top_categories"
  have k: "set ?k1 = set ?k2" using assms by (rule keep_set_independent)
  have c: "category_sort_list srt ?k1 (combine_categories df)
         = category_sort_list srt ?k2 (combine_categories df)"
    by (simp add: category_sort_list_def grouped_cong [OF k])
  show ?thesis
    unfolding sankey_flows_def Let_def c by (simp add: flow1_cong [OF k])
qed

text \<open>
  C8. Two runs of the function on the same table, the same cap and the same label map
  give the same result: the same text, or the same error. The function is a composition
  of functions of its input, but for one step: the kept categories are listed from a set,
  in an order that depends on the hash seed of the process and so can differ from one run
  to the next. Whatever the two orders are, the results are equal, because the list is
  used for membership tests only.
\<close>

theorem C8_deterministic:
  assumes "lists_elements ord1" and "lists_elements ord2"
  shows "generate_sankey_data srt ord1 df top_categories overwrite_map
       = generate_sankey_data srt ord2 df top_categories overwrite_map"
  by (simp add: generate_sankey_data_def sankey_text_def sankey_flows_independent [OF assms]
      split: sum.splits)

theorem C8_deterministic_witness:
  "generate_sankey_data sort_values_stable id raw_four_categories 3 Map.empty
     = generate_sankey_data sort_values_stable rev raw_four_categories 3 Map.empty"
  by (rule C8_deterministic [OF id_lists rev_lists])
end
